theory Spec2Isabelle
  imports Complex_Main "HOL-Library.Word"
begin

section \<open>Approximated polygon offsets: the convolution cycle of \<open>Approx_offset_base_2\<close>\<close>

text \<open>
  The development embeds \<open>Approx_offset_base_2.h\<close>: the constructor and
  \<open>_offset_polygon\<close>. The number type \<open>NT\<close> of the exact kernel is the field of
  rationals. Three parts of the computation lie outside the exact arithmetic of the file and
  are taken as parameters, collected in the record \<open>Collaborators\<close>:
  \<^item> the double-precision computations (the constructor's \<open>1.0 / sqrt (eps)\<close> cast to
    \<open>int\<close>, and lines 247 to 264, which produce the error bound and the first
    approximation of an edge's length);
  \<^item> \<open>Make_x_monotone_2\<close> of the circle-segment traits;
  \<^item> \<open>Polygon_2::orientation\<close>.

  Assertions and preconditions of the source are branches that return an error; a division
  of \<open>NT\<close> by zero is an error as well. A loop that may run forever returns \<open>None\<close>.
\<close>

subsection \<open>Kernel types\<close>

type_synonym NT = rat

type_synonym Point_2 = "NT \<times> NT"

datatype Sign = NEGATIVE | ZERO | POSITIVE

datatype Comparison_result = SMALLER | EQUAL | LARGER

datatype Orientation = CLOCKWISE | COUNTERCLOCKWISE | COLLINEAR

definition sign :: "NT \<Rightarrow> Sign" where
  "sign v = (if v < 0 then NEGATIVE else if 0 < v then POSITIVE else ZERO)"

definition compare :: "NT \<Rightarrow> NT \<Rightarrow> Comparison_result" where
  "compare a b = (if a < b then SMALLER else if b < a then LARGER else EQUAL)"

definition square :: "NT \<Rightarrow> NT" where
  "square v = v * v"

datatype error =
    Precondition_eps_positive
  | Assertion_sign_delta_y
  | Assertion_assign_mid_p
  | Assertion_assign_xarc
  | Assertion_n_segments
  | Division_by_zero
  | Invalid_circulator

type_synonym 'a result = "(error + 'a) option"

text \<open>
  Modelled from the spec: the exact kernel's lexicographic point comparison, line through two
  points, perpendicular line through a point and line intersection are not part of the
  file. A line is its coefficient triple \<open>(a, b, c)\<close> of \<open>a x + b y + c = 0\<close>; the
  intersection of two lines is a point exactly when the lines are not parallel.
\<close>

type_synonym Line_2 = "NT \<times> NT \<times> NT"

definition f_comp_xy :: "Point_2 \<Rightarrow> Point_2 \<Rightarrow> Comparison_result" where
  "f_comp_xy p q =
     (if fst p < fst q then SMALLER else if fst q < fst p then LARGER
      else compare (snd p) (snd q))"

definition f_line :: "Point_2 \<Rightarrow> Point_2 \<Rightarrow> Line_2" where
  "f_line p q =
     (let a = snd p - snd q; b = fst q - fst p
      in (a, b, - fst p * a - snd p * b))"

definition f_perp_line :: "Line_2 \<Rightarrow> Point_2 \<Rightarrow> Line_2" where
  "f_perp_line l p =
     (case l of (a, b, c) \<Rightarrow> (- b, a, b * fst p - a * snd p))"

definition f_intersect :: "Line_2 \<Rightarrow> Line_2 \<Rightarrow> Point_2 option" where
  "f_intersect l1 l2 =
     (case l1 of (a1, b1, c1) \<Rightarrow> case l2 of (a2, b2, c2) \<Rightarrow>
        (let det = a1 * b2 - a2 * b1
         in if det = 0 then None
            else Some ((b1 * c2 - b2 * c1) / det, (a2 * c1 - a1 * c2) / det)))"

subsection \<open>Curves, labels and the output iterator\<close>

record Curve_2 =
  center :: Point_2
  radius :: NT
  orient :: Orientation
  source :: Point_2
  target :: Point_2

datatype X_monotone_curve_2 =
    Line_segment Point_2 Point_2
  | Circular_arc Curve_2 bool

datatype Object = Curve_object X_monotone_curve_2 | Point_object Point_2

text \<open>
  \<open>is_directed_right\<close> of an x-monotone curve: a sub-arc carries the flag the decomposition
  gave it; a segment is compared at its end points.
\<close>

fun is_directed_right :: "X_monotone_curve_2 \<Rightarrow> bool" where
  "is_directed_right (Line_segment p q) = (f_comp_xy p q = SMALLER)"
| "is_directed_right (Circular_arc a d) = d"

text \<open>\<open>CGAL::assign (xarc, obj)\<close>: succeeds exactly on an object that holds a curve.\<close>

fun assign_xarc :: "Object \<Rightarrow> X_monotone_curve_2 option" where
  "assign_xarc (Curve_object c) = Some c"
| "assign_xarc (Point_object p) = None"

record X_curve_label =
  right :: bool
  component :: "32 word"
  index :: "32 word"
  is_last :: bool

text \<open>
  Modelled from the spec: \<open>Labels.h\<close> is not part of the file. The constructor of a label
  takes the direction flag, the cycle id, the sequence index and the is-last flag; with three
  arguments the is-last flag is false (only the last curve of a cycle carries it).
\<close>

definition X_curve_label4 :: "bool \<Rightarrow> 32 word \<Rightarrow> 32 word \<Rightarrow> bool \<Rightarrow> X_curve_label" where
  "X_curve_label4 d cid i l = \<lparr>right = d, component = cid, index = i, is_last = l\<rparr>"

definition X_curve_label3 :: "bool \<Rightarrow> 32 word \<Rightarrow> 32 word \<Rightarrow> X_curve_label" where
  "X_curve_label3 d cid i = X_curve_label4 d cid i False"

record Labeled_curve_2 =
  curve :: X_monotone_curve_2
  label :: X_curve_label

text \<open>
  The output iterator \<open>oi\<close>. An assignment \<open>*oi = c\<close> is recorded in \<open>writes\<close>, in the
  order of the assignments, with the position the iterator had; \<open>++oi\<close> moves to the next
  position. The curves emitted, in emission order, are \<open>map snd (writes oi)\<close>.
\<close>

record Output_iterator =
  writes :: "(nat \<times> Labeled_curve_2) list"
  pos :: nat

definition oi_assign :: "Output_iterator \<Rightarrow> Labeled_curve_2 \<Rightarrow> Output_iterator" where
  "oi_assign oi c = oi\<lparr>writes := writes oi @ [(pos oi, c)]\<rparr>"

definition oi_incr :: "Output_iterator \<Rightarrow> Output_iterator" where
  "oi_incr oi = oi\<lparr>pos := pos oi + 1\<rparr>"

subsection \<open>The algorithm object and its collaborators\<close>

record Approx_offset_base_2 =
  eps :: rat
  inv_sqrt_eps :: int

record Collaborators =
  fp_inv_sqrt :: "rat \<Rightarrow> int"
  fp_seed :: "Approx_offset_base_2 \<Rightarrow> NT \<Rightarrow> NT \<Rightarrow> NT \<Rightarrow> NT \<times> NT"
  make_x_monotone :: "Curve_2 \<Rightarrow> Object list"
  orientation :: "Point_2 list \<Rightarrow> Orientation"

text \<open>
  The constructor (lines 81 to 89). \<open>fp_inv_sqrt env e\<close> stands for
  \<open>static_cast<int> (1.0 / CGAL::sqrt (e))\<close>. The sign test on a double is exact, so
  \<open>eps\<close> is the rational the double denotes.
\<close>

definition construct :: "Collaborators \<Rightarrow> rat \<Rightarrow> error + Approx_offset_base_2" where
  "construct env e =
     (if sign e \<noteq> POSITIVE then Inl Precondition_eps_positive
      else let i = fp_inv_sqrt env e
           in Inr \<lparr>eps = e, inv_sqrt_eps = (if i = 0 then 1 else i)\<rparr>)"

subsection \<open>Offsetting one edge\<close>

text \<open>
  The refinement loop of lines 267 to 274. \<open>app_err\<close> is \<open>sqr_d - square app_d\<close> each
  time the condition is read (lines 265 and 273), so the loop carries \<open>app_d\<close> only.
\<close>

definition refine_more :: "NT \<Rightarrow> NT \<Rightarrow> NT \<Rightarrow> NT \<Rightarrow> NT \<Rightarrow> bool" where
  "refine_more sqr_d err_bound abs_delta_x abs_delta_y app_d =
     (compare (abs (sqr_d - square app_d)) err_bound = LARGER \<or>
      compare app_d abs_delta_x \<noteq> LARGER \<or>
      compare app_d abs_delta_y \<noteq> LARGER)"

partial_function (option) newton_loop ::
  "NT \<Rightarrow> NT \<Rightarrow> NT \<Rightarrow> NT \<Rightarrow> NT \<Rightarrow> (error + NT) option" where
  "newton_loop sqr_d err_bound abs_delta_x abs_delta_y app_d =
     (if refine_more sqr_d err_bound abs_delta_x abs_delta_y app_d
      then (if app_d = 0 then Some (Inl Division_by_zero)
            else newton_loop sqr_d err_bound abs_delta_x abs_delta_y
                   ((app_d + sqr_d / app_d) / 2))
      else Some (Inr app_d))"

text \<open>The choice of a lower or an upper approximation, lines 297 to 308.\<close>

definition bias_correction :: "Sign \<Rightarrow> Sign \<Rightarrow> NT \<Rightarrow> NT \<Rightarrow> error + NT" where
  "bias_correction sign_delta_x sign_app_err sqr_d app_d =
     (if sign_delta_x = NEGATIVE
      then (if sign_app_err = NEGATIVE
            then (if app_d = 0 then Inl Division_by_zero else Inr (sqr_d / app_d))
            else Inr app_d)
      else (if sign_app_err = POSITIVE
            then (if app_d = 0 then Inl Division_by_zero else Inr (sqr_d / app_d))
            else Inr app_d))"

record Edge_offset =
  op1 :: Point_2
  op2 :: Point_2
  seg1 :: X_monotone_curve_2
  dir_right1 :: bool
  second :: "(X_monotone_curve_2 \<times> bool) option"
  n_segments :: int

text \<open>
  \<open>second\<close> holds \<open>seg2\<close> and \<open>dir_right2\<close>, which the source assigns on the
  two-segment path only (lines 354 and 355) and reads only when \<open>n_segments\<close> is 2.
\<close>

text \<open>The point at distance \<open>r\<close> from \<open>p\<close> in the direction of half-angle tangent \<open>t\<close>
  (lines 321 to 325 and 329 to 333); \<open>1 + t * t\<close> is never zero.\<close>

definition offset_point :: "Point_2 \<Rightarrow> NT \<Rightarrow> NT \<Rightarrow> Point_2" where
  "offset_point p r tan_half_phi =
     (let sqr_tan_half_phi = square tan_half_phi;
          sin_phi = 2 * tan_half_phi / (1 + sqr_tan_half_phi);
          cos_phi = (1 - sqr_tan_half_phi) / (1 + sqr_tan_half_phi)
      in (fst p + r * cos_phi, snd p + r * sin_phi))"

text \<open>Lines 283 to 292: the approximation is the exact length.\<close>

definition rational_case :: "NT \<Rightarrow> Point_2 \<Rightarrow> Point_2 \<Rightarrow> NT \<Rightarrow> error + Edge_offset" where
  "rational_case r p1 p2 app_d =
     (let delta_x = fst p2 - fst p1; delta_y = snd p2 - snd p1
      in if app_d = 0 then Inl Division_by_zero
         else let trans_x = r * delta_y / app_d;
                  trans_y = r * (- delta_x) / app_d;
                  o1 = (fst p1 + trans_x, snd p1 + trans_y);
                  o2 = (fst p2 + trans_x, snd p2 + trans_y)
              in Inr \<lparr>op1 = o1, op2 = o2, seg1 = Line_segment o1 o2,
                      dir_right1 = (sign delta_x = POSITIVE),
                      second = None, n_segments = 1\<rparr>)"

text \<open>Lines 314 to 357: two segments that meet where the tangents at the offset points cross.\<close>

definition two_segments :: "NT \<Rightarrow> Point_2 \<Rightarrow> Point_2 \<Rightarrow> NT \<Rightarrow> error + Edge_offset" where
  "two_segments r p1 p2 app_d =
     (let delta_x = fst p2 - fst p1; delta_y = snd p2 - snd p1
      in if - delta_x = 0 \<or> app_d + delta_y = 0 then Inl Division_by_zero
         else let lower_tan_half_phi = (app_d - delta_y) / (- delta_x);
                  upper_tan_half_phi = (- delta_x) / (app_d + delta_y);
                  o1 = offset_point p1 r lower_tan_half_phi;
                  o2 = offset_point p2 r upper_tan_half_phi;
                  l1 = f_perp_line (f_line p1 o1) o1;
                  l2 = f_perp_line (f_line p2 o2) o2
              in case f_intersect l1 l2 of
                   None \<Rightarrow> Inl Assertion_assign_mid_p
                 | Some mid_p \<Rightarrow>
                     Inr \<lparr>op1 = o1, op2 = o2, seg1 = Line_segment o1 mid_p,
                          dir_right1 = (f_comp_xy o1 mid_p = SMALLER),
                          second = Some (Line_segment mid_p o2,
                                         f_comp_xy mid_p o2 = SMALLER),
                          n_segments = 2\<rparr>)"

text \<open>
  The three-way branch of lines 189, 212 and 233: the first test that succeeds decides.
\<close>

datatype Edge_case = Vertical | Horizontal | General

definition edge_case :: "Sign \<Rightarrow> Sign \<Rightarrow> Edge_case" where
  "edge_case sign_delta_x sign_delta_y =
     (if sign_delta_x = ZERO then Vertical
      else if sign_delta_y = ZERO then Horizontal
      else General)"

text \<open>
  The body of the traversal up to line 359, for the edge from \<open>p1\<close> to \<open>p2\<close>.
  \<open>fp_seed env base sqr_d delta_x delta_y\<close> stands for lines 247 to 264: it gives
  \<open>err_bound\<close> and the first \<open>app_d\<close>.
\<close>

definition offset_edge ::
  "Collaborators \<Rightarrow> Approx_offset_base_2 \<Rightarrow> NT \<Rightarrow> Point_2 \<Rightarrow> Point_2 \<Rightarrow> Edge_offset result" where
  "offset_edge env base r p1 p2 =
     (let x1 = fst p1; y1 = snd p1; x2 = fst p2; y2 = snd p2;
          delta_x = x2 - x1; delta_y = y2 - y1;
          sqr_d = square delta_x + square delta_y;
          sign_delta_x = sign delta_x; sign_delta_y = sign delta_y
      in case edge_case sign_delta_x sign_delta_y of
           Vertical \<Rightarrow>
             (if \<not> sign_delta_y \<noteq> ZERO then Some (Inl Assertion_sign_delta_y)
              else let o1 = (if sign_delta_y = POSITIVE then (x1 + r, y1) else (x1 - r, y1));
                       o2 = (if sign_delta_y = POSITIVE then (x2 + r, y2) else (x2 - r, y2))
                   in Some (Inr \<lparr>op1 = o1, op2 = o2, seg1 = Line_segment o1 o2,
                                  dir_right1 = (sign_delta_y = POSITIVE),
                                  second = None, n_segments = 1\<rparr>))
         | Horizontal \<Rightarrow>
             (let o1 = (if sign_delta_x = POSITIVE then (x1, y1 - r) else (x1, y1 + r));
                  o2 = (if sign_delta_x = POSITIVE then (x2, y2 - r) else (x2, y2 + r))
              in Some (Inr \<lparr>op1 = o1, op2 = o2, seg1 = Line_segment o1 o2,
                             dir_right1 = (sign_delta_x = POSITIVE),
                             second = None, n_segments = 1\<rparr>))
         | General \<Rightarrow>
             (let abs_delta_x = (if sign_delta_x = POSITIVE then delta_x else - delta_x);
                  abs_delta_y = (if sign_delta_y = POSITIVE then delta_y else - delta_y);
                  err_bound = fst (fp_seed env base sqr_d delta_x delta_y);
                  app_d0 = snd (fp_seed env base sqr_d delta_x delta_y)
              in case newton_loop sqr_d err_bound abs_delta_x abs_delta_y app_d0 of
                   None \<Rightarrow> None
                 | Some (Inl e) \<Rightarrow> Some (Inl e)
                 | Some (Inr app_d) \<Rightarrow>
                     (let app_err = sqr_d - square app_d;
                          sign_app_err = sign app_err
                      in if sign_app_err = ZERO then Some (rational_case r p1 p2 app_d)
                         else case bias_correction sign_delta_x sign_app_err sqr_d app_d of
                                Inl e \<Rightarrow> Some (Inl e)
                              | Inr app_d' \<Rightarrow> Some (two_segments r p1 p2 app_d'))))"

subsection \<open>The traversal\<close>

text \<open>
  Lines 379 to 390: the sub-arcs of a connecting arc are written one by one; each write is
  followed by \<open>++oi\<close> and \<open>curve_index++\<close>.
\<close>

fun emit_xarcs ::
  "32 word \<Rightarrow> Object list \<Rightarrow> 32 word \<Rightarrow> Output_iterator
   \<Rightarrow> error + (32 word \<times> Output_iterator)" where
  "emit_xarcs cycle_id [] curve_index oi = Inr (curve_index, oi)"
| "emit_xarcs cycle_id (obj # xobjs) curve_index oi =
     (case assign_xarc obj of
        None \<Rightarrow> Inl Assertion_assign_xarc
      | Some xarc \<Rightarrow>
          emit_xarcs cycle_id xobjs (curve_index + 1)
            (oi_incr (oi_assign oi
               \<lparr>curve = xarc,
                label = X_curve_label3 (is_directed_right xarc) cycle_id curve_index\<rparr>)))"

text \<open>
  Lines 432 to 447: the sub-arcs of the closing arc. \<open>is_last\<close> is computed after the
  list iterator has moved on; the body has \<open>curve_index++\<close> and no \<open>++oi\<close>.
\<close>

fun close_xarcs ::
  "32 word \<Rightarrow> Object list \<Rightarrow> 32 word \<Rightarrow> Output_iterator
   \<Rightarrow> error + (32 word \<times> Output_iterator)" where
  "close_xarcs cycle_id [] curve_index oi = Inr (curve_index, oi)"
| "close_xarcs cycle_id (obj # xobjs) curve_index oi =
     (case assign_xarc obj of
        None \<Rightarrow> Inl Assertion_assign_xarc
      | Some xarc \<Rightarrow>
          (let is_last = (xobjs = [])
           in close_xarcs cycle_id xobjs (curve_index + 1)
                (oi_assign oi
                   \<lparr>curve = xarc,
                    label = X_curve_label4 (is_directed_right xarc) cycle_id curve_index
                              is_last\<rparr>)))"

text \<open>
  Lines 394 to 411: the segment or the two segments of the edge. With \<open>n_segments = 2\<close>
  the second segment is the one assigned at lines 354 and 355; \<open>offset_edge\<close> never
  returns \<open>n_segments = 2\<close> without it (lemma \<open>offset_edge_segments\<close>), and
  that branch writes nothing more.
\<close>

definition emit_segments ::
  "32 word \<Rightarrow> Edge_offset \<Rightarrow> 32 word \<Rightarrow> Output_iterator
   \<Rightarrow> error + (32 word \<times> Output_iterator)" where
  "emit_segments cycle_id e curve_index oi =
     (if \<not> (n_segments e = 1 \<or> n_segments e = 2) then Inl Assertion_n_segments
      else let oi1 = oi_incr (oi_assign oi
                       \<lparr>curve = seg1 e,
                        label = X_curve_label3 (dir_right1 e) cycle_id curve_index\<rparr>);
               curve_index1 = curve_index + 1
           in if n_segments e = 2
              then (case second e of
                      Some (seg2, dir_right2) \<Rightarrow>
                        Inr (curve_index1 + 1,
                             oi_incr (oi_assign oi1
                               \<lparr>curve = seg2,
                                label = X_curve_label3 dir_right2 cycle_id curve_index1\<rparr>))
                    | None \<Rightarrow> Inr (curve_index1, oi1))
              else Inr (curve_index1, oi1))"

text \<open>
  The variables that live across iterations of the \<open>do \<dots> while\<close> loop. A vertex
  circulator is the index of its vertex; \<open>first\<close> is index 0. \<open>first_op\<close>,
  \<open>prev_op\<close> and \<open>op2\<close> are assigned before they are first read.
\<close>

record Cycle_state =
  curr :: nat
  first_op :: Point_2
  prev_op :: Point_2
  op2_var :: Point_2
  curve_index :: "32 word"
  oi :: Output_iterator

definition advance :: "bool \<Rightarrow> nat \<Rightarrow> nat \<Rightarrow> nat" where
  "advance forward n i = (if forward then (i + 1) mod n else (i + n - 1) mod n)"

text \<open>The number of loop tests still ahead of a circulator at index \<open>i\<close>.\<close>

definition remaining :: "bool \<Rightarrow> nat \<Rightarrow> nat \<Rightarrow> nat" where
  "remaining forward n i = (if i = 0 then n else if forward then n - i else i)"

lemma advance_decreases:
  assumes "i < n" and "advance forward n i \<noteq> 0"
  shows "remaining forward n (advance forward n i) < remaining forward n i"
proof (cases forward)
  case True
  with assms have "Suc i < n"
    by (cases "Suc i = n") (auto simp: advance_def)
  with True show ?thesis by (auto simp: advance_def remaining_def)
next
  case False
  show ?thesis
  proof (cases "i = 0")
    case True
    with False assms show ?thesis by (auto simp: advance_def remaining_def)
  next
    case nz: False
    then have e: "i + n - 1 = (i - 1) + n" by simp
    have "(i - 1 + n) mod n = i - 1" using assms(1) by simp
    then have "(i + n - 1) mod n = i - 1" by (simp only: e)
    with False have adv: "advance forward n i = i - 1" by (simp only: advance_def if_False)
    with assms(2) have "i - 1 \<noteq> 0" by simp
    with adv False nz show ?thesis by (simp add: remaining_def)
  qed
qed

text \<open>
  One run of the loop body, lines 167 to 416. A circulator that does not point into the
  polygon cannot be dereferenced.
\<close>

definition loop_body ::
  "Collaborators \<Rightarrow> Approx_offset_base_2 \<Rightarrow> Point_2 list \<Rightarrow> bool \<Rightarrow> NT \<Rightarrow> 32 word
   \<Rightarrow> Cycle_state \<Rightarrow> Cycle_state result" where
  "loop_body env base pgn forward r cycle_id st =
     (if length pgn \<le> curr st then Some (Inl Invalid_circulator)
      else
        let next = advance forward (length pgn) (curr st)
        in case offset_edge env base r (pgn ! curr st) (pgn ! next) of
             None \<Rightarrow> None
           | Some (Inl err) \<Rightarrow> Some (Inl err)
           | Some (Inr e) \<Rightarrow>
               (case (if curr st = 0
                      then Inr (st\<lparr>first_op := op1 e\<rparr>)
                      else let arc = \<lparr>center = pgn ! curr st, radius = r,
                                      orient = COUNTERCLOCKWISE,
                                      source = prev_op st, target = op1 e\<rparr>
                           in case emit_xarcs cycle_id (make_x_monotone env arc)
                                     (curve_index st) (oi st) of
                                Inl err \<Rightarrow> Inl err
                              | Inr (ci, o') \<Rightarrow> Inr (st\<lparr>curve_index := ci, oi := o'\<rparr>)) of
                  Inl err \<Rightarrow> Some (Inl err)
                | Inr st1 \<Rightarrow>
                    (case emit_segments cycle_id e (curve_index st1) (oi st1) of
                       Inl err \<Rightarrow> Some (Inl err)
                     | Inr (ci, o') \<Rightarrow>
                         Some (Inr (st1\<lparr>curve_index := ci, oi := o', prev_op := op2 e,
                                        op2_var := op2 e, curr := next\<rparr>)))))"

lemma loop_body_curr:
  assumes "loop_body env base pgn forward r cycle_id st = Some (Inr st')"
  shows "curr st < length pgn \<and> curr st' = advance forward (length pgn) (curr st)"
proof -
  from assms have "curr st < length pgn"
    by (simp add: loop_body_def split: if_splits)
  moreover from assms have "curr st' = advance forward (length pgn) (curr st)"
    unfolding loop_body_def Let_def
    by (auto split: if_splits option.splits sum.splits prod.splits)
  ultimately show ?thesis by simp
qed

text \<open>The loop \<open>do \<dots> while (curr != first)\<close> of lines 166 to 417.\<close>

function traverse ::
  "Collaborators \<Rightarrow> Approx_offset_base_2 \<Rightarrow> Point_2 list \<Rightarrow> bool \<Rightarrow> NT \<Rightarrow> 32 word
   \<Rightarrow> Cycle_state \<Rightarrow> Cycle_state result" where
  "traverse env base pgn forward r cycle_id st =
     (case loop_body env base pgn forward r cycle_id st of
        None \<Rightarrow> None
      | Some (Inl err) \<Rightarrow> Some (Inl err)
      | Some (Inr st') \<Rightarrow>
          (if curr st' \<noteq> 0 then traverse env base pgn forward r cycle_id st'
           else Some (Inr st')))"
  by pat_completeness auto
termination
proof (relation "measure (\<lambda>(env, base, pgn, forward, r, cycle_id, st).
          remaining forward (length pgn) (curr st))", goal_cases)
  case 1
  show ?case by simp
next
  case (2 env base pgn forward r cycle_id st x2 st')
  then have "loop_body env base pgn forward r cycle_id st = Some (Inr st')" by simp
  from loop_body_curr[OF this] 2(3) show ?case
    by (simp add: advance_decreases)
qed

text \<open>
  \<open>_offset_polygon\<close>. The circulator of a polygon without vertices points nowhere. The
  closing arc (lines 421 to 423) is decomposed and written by \<open>close_xarcs\<close>; the
  iterator is returned.
\<close>

definition offset_polygon ::
  "Collaborators \<Rightarrow> Approx_offset_base_2 \<Rightarrow> Point_2 list \<Rightarrow> NT \<Rightarrow> 32 word
   \<Rightarrow> Output_iterator \<Rightarrow> Output_iterator result" where
  "offset_polygon env base pgn r cycle_id oi0 =
     (let forward = (orientation env pgn = COUNTERCLOCKWISE);
          st0 = \<lparr>curr = 0, first_op = (0, 0), prev_op = (0, 0), op2_var = (0, 0),
                 curve_index = 0, oi = oi0\<rparr>
      in case traverse env base pgn forward r cycle_id st0 of
           None \<Rightarrow> None
         | Some (Inl err) \<Rightarrow> Some (Inl err)
         | Some (Inr st) \<Rightarrow>
             (let arc = \<lparr>center = pgn ! 0, radius = r, orient = COUNTERCLOCKWISE,
                         source = op2_var st, target = first_op st\<rparr>
              in case close_xarcs cycle_id (make_x_monotone env arc)
                        (curve_index st) (oi st) of
                   Inl err \<Rightarrow> Some (Inl err)
                 | Inr (ci, o') \<Rightarrow> Some (Inr o')))"

subsection \<open>Specification vocabulary and worked inputs\<close>

definition squared_distance :: "Point_2 \<Rightarrow> Point_2 \<Rightarrow> NT" where
  "squared_distance p q = square (fst p - fst q) + square (snd p - snd q)"

text \<open>The sequence indices and the is-last flags of the curves written, in emission order.\<close>

definition indices :: "(nat \<times> Labeled_curve_2) list \<Rightarrow> 32 word list" where
  "indices ws = map (\<lambda>w. index (label (snd w))) ws"

definition last_flags :: "(nat \<times> Labeled_curve_2) list \<Rightarrow> bool list" where
  "last_flags ws = map (\<lambda>w. is_last (label (snd w))) ws"

text \<open>
  A run of writes is stamped from \<open>ci\<close> when its sequence indices count up from
  \<open>ci\<close> and none of its curves is marked as the last of the cycle.
\<close>

definition stamped :: "32 word \<Rightarrow> (nat \<times> Labeled_curve_2) list \<Rightarrow> bool" where
  "stamped ci ws =
     (indices ws = map (\<lambda>k. ci + of_nat k) [0..<length ws] \<and> last_flags ws = replicate (length ws) False)"

text \<open>
  Modelled from the spec: the decomposition primitive is not part of the file. Given a
  counterclockwise arc it returns the ordered x-monotone sub-arcs that cover it: the arc is
  cut at the leftmost and the rightmost point of its circle where they lie strictly inside
  it. A sub-arc that starts in the lower half of the circle runs from left to right.
\<close>

definition cross :: "Point_2 \<Rightarrow> Point_2 \<Rightarrow> NT" where
  "cross u v = fst u * snd v - snd u * fst v"

definition strictly_inside :: "Curve_2 \<Rightarrow> Point_2 \<Rightarrow> bool" where
  "strictly_inside arc q =
     (let c = center arc;
          u = (fst (source arc) - fst c, snd (source arc) - snd c);
          v = (fst (target arc) - fst c, snd (target arc) - snd c);
          w = (fst q - fst c, snd q - snd c)
      in if source arc = target arc then False
         else if 0 < cross u v then 0 < cross u w \<and> 0 < cross w v
         else if cross u v < 0 then \<not> (0 \<le> cross v w \<and> 0 \<le> cross w u)
         else 0 < cross u w)"

fun sub_arcs :: "Curve_2 \<Rightarrow> Point_2 \<Rightarrow> Point_2 list \<Rightarrow> Object list" where
  "sub_arcs arc a [] = []"
| "sub_arcs arc a (b # bs) =
     Curve_object (Circular_arc (arc\<lparr>source := a, target := b\<rparr>)
       (snd a < snd (center arc) \<or> (snd a = snd (center arc) \<and> fst a < fst (center arc))))
     # sub_arcs arc b bs"

definition x_monotone_pieces :: "Curve_2 \<Rightarrow> Object list" where
  "x_monotone_pieces arc =
     (let c = center arc; s = source arc;
          leftmost = (fst c - radius arc, snd c);
          rightmost = (fst c + radius arc, snd c);
          in_l = strictly_inside arc leftmost;
          in_r = strictly_inside arc rightmost;
          left_first = (snd c < snd s \<or> (snd s = snd c \<and> fst c < fst s));
          cuts = (if in_l \<and> in_r
                  then (if left_first then [leftmost, rightmost] else [rightmost, leftmost])
                  else if in_l then [leftmost]
                  else if in_r then [rightmost]
                  else [])
      in sub_arcs arc s (cuts @ [target arc]))"

text \<open>
  Collaborators for worked inputs: the decomposition above, a counterclockwise polygon, and
  double-precision results given outright: \<open>err_bound\<close> and the first \<open>app_d\<close>
  are the same for every general edge of the input.
\<close>

definition worked_env :: "NT \<Rightarrow> NT \<Rightarrow> Collaborators" where
  "worked_env err_bound app_d0 =
     \<lparr>fp_inv_sqrt = (\<lambda>e. 1),
      fp_seed = (\<lambda>base sqr_d delta_x delta_y. (err_bound, app_d0)),
      make_x_monotone = x_monotone_pieces,
      orientation = (\<lambda>pgn. COUNTERCLOCKWISE)\<rparr>"


definition worked_base :: "rat \<Rightarrow> Approx_offset_base_2" where
  "worked_base e = \<lparr>eps = e, inv_sqrt_eps = 1\<rparr>"

definition fresh_oi :: Output_iterator where
  "fresh_oi = \<lparr>writes = [], pos = 0\<rparr>"

section \<open>Properties\<close>

subsection \<open>Signs, comparisons and the refinement loop\<close>

lemma sign_simps:
  "(sign v = ZERO) = (v = 0)" "(sign v = POSITIVE) = (0 < v)" "(sign v = NEGATIVE) = (v < 0)"
  by (auto simp: sign_def)

lemma compare_LARGER: "(compare a b = LARGER) = (b < a)"
  by (auto simp: compare_def)

lemma refine_more_iff:
  "refine_more s e ax ay a = (\<not> (\<bar>s - square a\<bar> \<le> e \<and> ax < a \<and> ay < a))"
  by (auto simp: refine_more_def compare_LARGER)

text \<open>What the loop returns: an accepted approximation, or the division error.\<close>

lemma newton_loop_result:
  assumes "newton_loop s e ax ay a0 = Some y"
  shows "(\<forall>a. y = Inr a \<longrightarrow> \<not> refine_more s e ax ay a)
         \<and> (\<forall>err. y = Inl err \<longrightarrow> err = Division_by_zero)"
proof (rule newton_loop.raw_induct
    [where P = "\<lambda>s e ax ay a0 y. (\<forall>a. y = Inr a \<longrightarrow> \<not> refine_more s e ax ay a)
         \<and> (\<forall>err. y = Inl err \<longrightarrow> err = Division_by_zero)", OF _ assms])
  fix f s e ax ay a0 y
  assume IH: "\<And>s e ax ay a0 y. f s e ax ay a0 = Some y \<Longrightarrow>
              (\<forall>a. y = Inr a \<longrightarrow> \<not> refine_more s e ax ay a)
              \<and> (\<forall>err. y = Inl err \<longrightarrow> err = Division_by_zero)"
    and body: "(if refine_more s e ax ay a0
          then if a0 = 0 then Some (Inl Division_by_zero)
               else f s e ax ay ((a0 + s / a0) / 2)
          else Some (Inr a0)) = Some y"
  show "(\<forall>a. y = Inr a \<longrightarrow> \<not> refine_more s e ax ay a)
         \<and> (\<forall>err. y = Inl err \<longrightarrow> err = Division_by_zero)"
  proof (cases "refine_more s e ax ay a0")
    case False
    with body show ?thesis by auto
  next
    case True
    show ?thesis
    proof (cases "a0 = 0")
      case True
      with \<open>refine_more s e ax ay a0\<close> body show ?thesis by auto
    next
      case False
      with \<open>refine_more s e ax ay a0\<close> body
      have "f s e ax ay ((a0 + s / a0) / 2) = Some y" by simp
      then show ?thesis by (rule IH)
    qed
  qed
qed

lemma newton_loop_accepts:
  "newton_loop s e ax ay a0 = Some (Inr a) \<Longrightarrow> \<bar>s - square a\<bar> \<le> e \<and> ax < a \<and> ay < a"
  using newton_loop_result[of s e ax ay a0 "Inr a"] by (simp add: refine_more_iff)

lemma newton_loop_error:
  "newton_loop s e ax ay a0 = Some (Inl err) \<Longrightarrow> err = Division_by_zero"
  using newton_loop_result[of s e ax ay a0 "Inl err"] by simp

lemma newton_step_error:
  assumes "a \<noteq> 0"
  shows "square ((a + s / a) / 2) - s = square (square a - s) / (4 * square a)"
proof -
  define b where "b = (a + s / a) / 2"
  have twice: "2 * a * b = a * a + s"
    using assms by (simp add: b_def field_simps)
  have "(a * a - s) * (a * a - s) = (a * a + s) * (a * a + s) - 4 * (a * a) * s"
    by (simp add: algebra_simps)
  also have "\<dots> = (2 * a * b) * (2 * a * b) - 4 * (a * a) * s"
    by (simp only: twice)
  also have "\<dots> = (b * b - s) * (4 * (a * a))"
    by (simp add: algebra_simps)
  finally have "(a * a - s) * (a * a - s) / (4 * (a * a)) = b * b - s"
    using assms by simp
  then show ?thesis by (simp add: square_def b_def)
qed

lemma newton_step_positive:
  assumes "0 < (a::rat)" "0 < s"
  shows "0 < (a + s / a) / 2"
proof -
  have "0 < s / a" using assms by (rule_tac divide_pos_pos)
  with assms(1) show ?thesis by simp
qed

lemma newton_step_above:
  assumes "0 < a"
  shows "s \<le> square ((a + s / a) / 2)"
proof -
  have "0 \<le> square (square a - s) / (4 * square a)"
    by (simp add: square_def)
  with newton_step_error[of a s] assms show ?thesis by simp
qed

lemma newton_step_quarter:
  assumes "0 < a" "0 < s" "s \<le> square a"
  shows "square ((a + s / a) / 2) - s \<le> (square a - s) / 4"
proof -
  have pos: "0 < 4 * square a" using assms(1) by (simp add: square_def)
  have "square (square a - s) \<le> (square a - s) * square a"
    unfolding square_def[of "square a - s"]
    using assms(2,3) by (intro mult_left_mono) auto
  then have "square (square a - s) \<le> (square a - s) / 4 * (4 * square a)"
    by simp
  then have "square (square a - s) / (4 * square a) \<le> (square a - s) / 4"
    using pos by (simp only: pos_divide_le_eq)
  then show ?thesis using newton_step_error[of a s] assms(1) by simp
qed

lemma square_positive: "v \<noteq> 0 \<Longrightarrow> 0 < square v"
  using sum_squares_gt_zero_iff[of v 0] by (simp add: square_def)

lemma sqr_d_positive: "dx \<noteq> 0 \<Longrightarrow> 0 < square dx + square dy"
  using sum_squares_gt_zero_iff[of dx dy] by (simp add: square_def)

lemma above_root_exceeds:
  assumes "0 < a" "x * x < a * a"
  shows "\<bar>x\<bar> < (a::rat)"
proof (rule ccontr)
  assume "\<not> \<bar>x\<bar> < a"
  then have "a \<le> \<bar>x\<bar>" by simp
  then have "a * a \<le> \<bar>x\<bar> * \<bar>x\<bar>" using assms(1) by (intro mult_mono) auto
  then show False using assms(2) by simp
qed

lemma accept_above_root:
  assumes "dx \<noteq> 0" "dy \<noteq> 0" "0 < a"
    and "square dx + square dy \<le> square a"
    and "square a - (square dx + square dy) \<le> e"
  shows "\<not> refine_more (square dx + square dy) e \<bar>dx\<bar> \<bar>dy\<bar> a"
proof -
  have "0 < square dy" "0 < square dx" using assms(1,2) by (simp_all add: square_positive)
  with assms(4) have "dx * dx < a * a" "dy * dy < a * a" by (simp_all add: square_def)
  with assms(3) have "\<bar>dx\<bar> < a" "\<bar>dy\<bar> < a" by (simp_all add: above_root_exceeds)
  with assms(4,5) show ?thesis by (simp add: refine_more_iff)
qed

lemma newton_loop_converges:
  assumes "dx \<noteq> 0" "dy \<noteq> 0" "0 < e"
  shows "0 < a \<Longrightarrow> square dx + square dy \<le> square a
         \<Longrightarrow> square a - (square dx + square dy) \<le> e * 4 ^ k
         \<Longrightarrow> \<exists>y. newton_loop (square dx + square dy) e \<bar>dx\<bar> \<bar>dy\<bar> a = Some (Inr y)
                \<and> \<not> refine_more (square dx + square dy) e \<bar>dx\<bar> \<bar>dy\<bar> y"
proof (induction k arbitrary: a)
  case 0
  then have "\<not> refine_more (square dx + square dy) e \<bar>dx\<bar> \<bar>dy\<bar> a"
    using assms by (intro accept_above_root) simp_all
  then show ?case by (subst newton_loop.simps) simp
next
  case (Suc k)
  let ?s = "square dx + square dy"
  have spos: "0 < ?s" using assms(1) by (rule sqr_d_positive)
  show ?case
  proof (cases "refine_more ?s e \<bar>dx\<bar> \<bar>dy\<bar> a")
    case False
    then show ?thesis by (subst newton_loop.simps) simp
  next
    case True
    let ?b = "(a + ?s / a) / 2"
    have "square ?b - ?s \<le> (square a - ?s) / 4"
      using Suc.prems spos by (intro newton_step_quarter) simp_all
    also have "\<dots> \<le> e * 4 ^ k" using Suc.prems(3) by simp
    finally have "\<exists>y. newton_loop ?s e \<bar>dx\<bar> \<bar>dy\<bar> ?b = Some (Inr y)
                \<and> \<not> refine_more ?s e \<bar>dx\<bar> \<bar>dy\<bar> y"
      using Suc.prems(1) spos by (intro Suc.IH newton_step_positive newton_step_above) simp_all
    with True Suc.prems(1) show ?thesis by (subst newton_loop.simps) simp
  qed
qed

lemma four_power_dominates:
  assumes "0 < (e::rat)"
  shows "\<exists>k. x \<le> e * 4 ^ k"
proof -
  obtain n :: nat where n: "x / e < of_nat n" using reals_Archimedean2 by blast
  have a: "(of_nat n :: rat) < 2 ^ n" by (rule of_nat_less_two_power)
  have b: "(2::rat) ^ n \<le> 4 ^ n" by (intro power_mono) simp_all
  from n a b have "x / e < 4 ^ n" by linarith
  then have "x < e * 4 ^ n" using assms by (simp add: field_simps)
  then show ?thesis by (intro exI[of _ n]) simp
qed

text \<open>
  C7. For a general edge (\<open>delta_x\<close> and \<open>delta_y\<close> both nonzero), a positive first
  approximation and a positive error bound, the refinement loop
  \<open>app_d \<leftarrow> (app_d + sqr_d / app_d) / 2\<close> returns, and the value it returns satisfies
  the acceptance predicate: the error is within the bound and \<open>app_d\<close> exceeds both
  \<open>\<bar>delta_x\<bar>\<close> and \<open>\<bar>delta_y\<bar>\<close>.
\<close>

theorem newton_refinement_terminates:
  assumes "delta_x \<noteq> 0" "delta_y \<noteq> 0" "0 < app_d0" "0 < err_bound"
  shows "\<exists>app_d. newton_loop (square delta_x + square delta_y) err_bound
                    \<bar>delta_x\<bar> \<bar>delta_y\<bar> app_d0 = Some (Inr app_d)
          \<and> \<bar>square delta_x + square delta_y - square app_d\<bar> \<le> err_bound
          \<and> \<bar>delta_x\<bar> < app_d \<and> \<bar>delta_y\<bar> < app_d"
proof -
  let ?s = "square delta_x + square delta_y"
  have spos: "0 < ?s" using assms(1) by (rule sqr_d_positive)
  have "\<exists>y. newton_loop ?s err_bound \<bar>delta_x\<bar> \<bar>delta_y\<bar> app_d0 = Some (Inr y)
          \<and> \<not> refine_more ?s err_bound \<bar>delta_x\<bar> \<bar>delta_y\<bar> y"
  proof (cases "refine_more ?s err_bound \<bar>delta_x\<bar> \<bar>delta_y\<bar> app_d0")
    case False
    then show ?thesis by (subst newton_loop.simps) simp
  next
    case True
    let ?b = "(app_d0 + ?s / app_d0) / 2"
    obtain k where k: "square ?b - ?s \<le> err_bound * 4 ^ k"
      using four_power_dominates[OF assms(4)] by blast
    have "\<exists>y. newton_loop ?s err_bound \<bar>delta_x\<bar> \<bar>delta_y\<bar> ?b = Some (Inr y)
          \<and> \<not> refine_more ?s err_bound \<bar>delta_x\<bar> \<bar>delta_y\<bar> y"
      using assms spos k
      by (intro newton_loop_converges newton_step_positive newton_step_above) simp_all
    with True assms(3) show ?thesis by (subst newton_loop.simps) simp
  qed
  then show ?thesis by (auto simp: refine_more_iff)
qed

theorem newton_refinement_terminates_witness:
  "\<exists>app_d. newton_loop (square 1 + square 2) (1 / 100) \<bar>1\<bar> \<bar>2\<bar> 2 = Some (Inr app_d)
          \<and> \<bar>square 1 + square 2 - square app_d\<bar> \<le> 1 / 100
          \<and> \<bar>1\<bar> < app_d \<and> \<bar>2\<bar> < app_d"
  using newton_refinement_terminates[of 1 2 2 "1 / 100"] by simp

subsection \<open>One edge\<close>

lemmas edge_eval = offset_edge_def edge_case_def Let_def sign_def square_def compare_def
  refine_more_def bias_correction_def rational_case_def two_segments_def offset_point_def
  f_line_def f_perp_line_def f_intersect_def f_comp_xy_def worked_env_def worked_base_def

text \<open>The general branch of \<open>offset_edge\<close>, with the result of the loop named.\<close>

lemma offset_edge_general:
  assumes "delta_x = fst p2 - fst p1" "delta_y = snd p2 - snd p1"
    and "sqr_d = square delta_x + square delta_y"
    and "delta_x \<noteq> 0" "delta_y \<noteq> 0"
    and "fp_seed env base sqr_d delta_x delta_y = (err_bound, app_d0)"
    and "newton_loop sqr_d err_bound \<bar>delta_x\<bar> \<bar>delta_y\<bar> app_d0 = Some res"
  shows "offset_edge env base r p1 p2 =
           (case res of
              Inl e \<Rightarrow> Some (Inl e)
            | Inr app_d \<Rightarrow>
               (if sign (sqr_d - square app_d) = ZERO
                then Some (rational_case r p1 p2 app_d)
                else case bias_correction (sign delta_x) (sign (sqr_d - square app_d)) sqr_d app_d of
                       Inl e \<Rightarrow> Some (Inl e)
                     | Inr app_d' \<Rightarrow> Some (two_segments r p1 p2 app_d')))"
proof -
  have ax: "(if 0 < delta_x then delta_x else - delta_x) = \<bar>delta_x\<bar>"
    and ay: "(if 0 < delta_y then delta_y else - delta_y) = \<bar>delta_y\<bar>"
    by simp_all
  have c: "edge_case (sign delta_x) (sign delta_y) = General"
    using assms(4,5) by (simp add: edge_case_def sign_simps)
  show ?thesis
    unfolding offset_edge_def Let_def assms(1,2)[symmetric] assms(3)[symmetric] c
      sign_simps ax ay assms(6) fst_conv snd_conv assms(7)
    by (cases res) simp_all
qed

lemma offset_edge_general_diverges:
  assumes "delta_x = fst p2 - fst p1" "delta_y = snd p2 - snd p1"
    and "sqr_d = square delta_x + square delta_y"
    and "delta_x \<noteq> 0" "delta_y \<noteq> 0"
    and "fp_seed env base sqr_d delta_x delta_y = (err_bound, app_d0)"
    and "newton_loop sqr_d err_bound \<bar>delta_x\<bar> \<bar>delta_y\<bar> app_d0 = None"
  shows "offset_edge env base r p1 p2 = None"
proof -
  have ax: "(if 0 < delta_x then delta_x else - delta_x) = \<bar>delta_x\<bar>"
    and ay: "(if 0 < delta_y then delta_y else - delta_y) = \<bar>delta_y\<bar>"
    by simp_all
  have c: "edge_case (sign delta_x) (sign delta_y) = General"
    using assms(4,5) by (simp add: edge_case_def sign_simps)
  show ?thesis
    unfolding offset_edge_def Let_def assms(1,2)[symmetric] assms(3)[symmetric] c
      sign_simps ax ay assms(6) fst_conv snd_conv assms(7)
    by simp
qed

lemma rational_case_shape:
  assumes "rational_case r p1 p2 a = Inr e"
  shows "second e = None \<and> n_segments e = 1"
  using assms by (auto simp: rational_case_def Let_def split: if_splits)

lemma two_segments_shape:
  assumes "two_segments r p1 p2 a = Inr e"
  shows "second e \<noteq> None \<and> n_segments e = 2"
  using assms by (auto simp: two_segments_def Let_def split: if_splits option.splits)

lemma rational_case_error:
  "rational_case r p1 p2 a = Inl err \<Longrightarrow> err = Division_by_zero"
  by (auto simp: rational_case_def Let_def split: if_splits)

lemma bias_correction_error:
  "bias_correction sx se s a = Inl err \<Longrightarrow> err = Division_by_zero"
  by (auto simp: bias_correction_def split: if_splits)

lemma two_segments_error:
  "two_segments r p1 p2 a = Inl err \<Longrightarrow> err = Division_by_zero \<or> err = Assertion_assign_mid_p"
  by (auto simp: two_segments_def Let_def split: if_splits option.splits)

text \<open>The errors of the general branch.\<close>

lemma offset_edge_general_error:
  assumes "fst p2 - fst p1 \<noteq> 0" "snd p2 - snd p1 \<noteq> 0"
    and "offset_edge env base r p1 p2 = Some (Inl err)"
  shows "err = Division_by_zero \<or> err = Assertion_assign_mid_p"
proof -
  define delta_x delta_y where "delta_x = fst p2 - fst p1" and "delta_y = snd p2 - snd p1"
  define sqr_d where "sqr_d = square delta_x + square delta_y"
  obtain err_bound app_d0 where seed: "fp_seed env base sqr_d delta_x delta_y = (err_bound, app_d0)"
    by (cases "fp_seed env base sqr_d delta_x delta_y") auto
  note g = delta_x_def delta_y_def sqr_d_def assms(1,2)[folded delta_x_def delta_y_def] seed
  show ?thesis
  proof (cases "newton_loop sqr_d err_bound \<bar>delta_x\<bar> \<bar>delta_y\<bar> app_d0")
    case None
    from offset_edge_general_diverges[OF g None] assms(3) show ?thesis by simp
  next
    case (Some res)
    note eq = offset_edge_general[OF g Some, of r]
    show ?thesis
    proof (cases res)
      case (Inl e)
      with Some have "e = Division_by_zero" by (auto dest: newton_loop_error)
      with eq Inl assms(3) show ?thesis by simp
    next
      case (Inr app_d)
      with eq assms(3) show ?thesis
        by (auto split: if_splits sum.splits
            dest: rational_case_error[OF sym] bias_correction_error two_segments_error[OF sym])
    qed
  qed
qed

text \<open>The number of segments agrees with the presence of the second segment.\<close>

lemma offset_edge_segments:
  assumes "offset_edge env base r p1 p2 = Some (Inr e)"
  shows "(n_segments e = 1 \<and> second e = None) \<or> (n_segments e = 2 \<and> second e \<noteq> None)"
proof -
  define delta_x delta_y where "delta_x = fst p2 - fst p1" and "delta_y = snd p2 - snd p1"
  define sqr_d where "sqr_d = square delta_x + square delta_y"
  consider (axis) "delta_x = 0 \<or> delta_y = 0" | (general) "delta_x \<noteq> 0" "delta_y \<noteq> 0"
    by blast
  then show ?thesis
  proof cases
    case axis
    with assms show ?thesis
      unfolding delta_x_def delta_y_def
      by (auto simp: offset_edge_def edge_case_def Let_def sign_simps split: if_splits)
  next
    case general
    obtain err_bound app_d0 where seed: "fp_seed env base sqr_d delta_x delta_y = (err_bound, app_d0)"
      by (cases "fp_seed env base sqr_d delta_x delta_y") auto
    note g = delta_x_def delta_y_def sqr_d_def general seed
    show ?thesis
    proof (cases "newton_loop sqr_d err_bound \<bar>delta_x\<bar> \<bar>delta_y\<bar> app_d0")
      case None
      from offset_edge_general_diverges[OF g None] assms show ?thesis by simp
    next
      case (Some res)
      note eq = offset_edge_general[OF g Some, of r]
      show ?thesis
      proof (cases res)
        case (Inl err)
        with eq assms show ?thesis by simp
      next
        case (Inr app_d)
        show ?thesis
        proof (cases "sign (sqr_d - square app_d) = ZERO")
          case True
          with eq Inr assms have "rational_case r p1 p2 app_d = Inr e" by simp
          then show ?thesis by (auto dest: rational_case_shape)
        next
          case False
          with eq Inr assms obtain app_d' where "two_segments r p1 p2 app_d' = Inr e"
            by (auto split: sum.splits)
          then show ?thesis by (auto dest: two_segments_shape)
        qed
      qed
    qed
  qed
qed

lemma offset_point_distance: "squared_distance (offset_point p r t) p = r * r"
proof -
  define d where "d = 1 + t * t"
  have "0 \<le> t * t" by simp
  then have nz: "d \<noteq> 0" unfolding d_def by linarith
  have num: "(1 - t * t) * (1 - t * t) + (2 * t) * (2 * t) = d * d"
    unfolding d_def by (simp add: algebra_simps)
  have "(r * ((1 - t * t) / d)) * (r * ((1 - t * t) / d))
        + (r * (2 * t / d)) * (r * (2 * t / d))
        = r * r * (((1 - t * t) * (1 - t * t) + (2 * t) * (2 * t)) / (d * d))"
    by (simp add: add_divide_distrib distrib_left ac_simps)
  also have "\<dots> = r * r * (d * d / (d * d))" by (simp only: num)
  also have "\<dots> = r * r" using nz by simp
  finally show ?thesis
    by (simp add: squared_distance_def offset_point_def square_def Let_def d_def)
qed

lemma rational_case_distance:
  assumes "rational_case r p1 p2 a = Inr e"
    and "square (fst p2 - fst p1) + square (snd p2 - snd p1) - square a = 0"
  shows "squared_distance (op1 e) p1 = r * r \<and> squared_distance (op2 e) p2 = r * r"
proof -
  from assms(1) have nz: "a \<noteq> 0"
    by (auto simp: rational_case_def Let_def split: if_splits)
  define dx where "dx = fst p2 - fst p1"
  define dy where "dy = snd p2 - snd p1"
  from assms(2) have s: "dx * dx + dy * dy = a * a"
    by (simp add: square_def dx_def dy_def)
  have "(r * dy / a) * (r * dy / a) + (r * dx / a) * (r * dx / a)
        = r * r * ((dx * dx + dy * dy) / (a * a))"
    by (simp add: add_divide_distrib distrib_left ac_simps)
  also have "\<dots> = r * r" using nz s by simp
  finally have k: "(r * dy / a) * (r * dy / a) + (r * dx / a) * (r * dx / a) = r * r" .
  from assms(1) nz have e: "op1 e = (fst p1 + r * dy / a, snd p1 - r * dx / a)"
       "op2 e = (fst p2 + r * dy / a, snd p2 - r * dx / a)"
    by (auto simp: rational_case_def Let_def dx_def dy_def)
  show ?thesis using k by (simp add: e squared_distance_def square_def)
qed

lemma two_segments_distance:
  assumes "two_segments r p1 p2 a = Inr e"
  shows "squared_distance (op1 e) p1 = r * r \<and> squared_distance (op2 e) p2 = r * r"
  using assms
  by (auto simp: two_segments_def Let_def offset_point_distance split: if_splits option.splits)


text \<open>
  C9. In every branch of the per-edge case analysis (vertical, horizontal, rational length,
  two segments), the offset points \<open>op1\<close> and \<open>op2\<close> lie at squared distance exactly
  \<open>r\<^sup>2\<close> from the source and from the target of the edge.
\<close>

theorem offset_points_on_circle:
  assumes "offset_edge env base r p1 p2 = Some (Inr e)"
  shows "squared_distance (op1 e) p1 = square r \<and> squared_distance (op2 e) p2 = square r"
proof -
  define delta_x delta_y where "delta_x = fst p2 - fst p1" and "delta_y = snd p2 - snd p1"
  define sqr_d where "sqr_d = square delta_x + square delta_y"
  consider (axis) "delta_x = 0 \<or> delta_y = 0" | (general) "delta_x \<noteq> 0" "delta_y \<noteq> 0"
    by blast
  then show ?thesis
  proof cases
    case axis
    with assms show ?thesis
      unfolding delta_x_def delta_y_def
      by (auto simp: offset_edge_def edge_case_def Let_def sign_simps squared_distance_def
          square_def split: if_splits)
  next
    case general
    obtain err_bound app_d0 where seed: "fp_seed env base sqr_d delta_x delta_y = (err_bound, app_d0)"
      by (cases "fp_seed env base sqr_d delta_x delta_y") auto
    note g = delta_x_def delta_y_def sqr_d_def general seed
    show ?thesis
    proof (cases "newton_loop sqr_d err_bound \<bar>delta_x\<bar> \<bar>delta_y\<bar> app_d0")
      case None
      from offset_edge_general_diverges[OF g None] assms show ?thesis by simp
    next
      case (Some res)
      note eq = offset_edge_general[OF g Some, of r]
      show ?thesis
      proof (cases res)
        case (Inl err)
        with eq assms show ?thesis by simp
      next
        case (Inr app_d)
        show ?thesis
        proof (cases "sign (sqr_d - square app_d) = ZERO")
          case True
          with eq Inr assms have "rational_case r p1 p2 app_d = Inr e" by simp
          moreover from True have "square (fst p2 - fst p1) + square (snd p2 - snd p1) - square app_d = 0"
            by (simp add: sign_simps sqr_d_def delta_x_def delta_y_def)
          ultimately show ?thesis unfolding square_def[of r] by (rule rational_case_distance)
        next
          case False
          with eq Inr assms obtain app_d' where "two_segments r p1 p2 app_d' = Inr e"
            by (auto split: sum.splits)
          then show ?thesis unfolding square_def[of r] by (rule two_segments_distance)
        qed
      qed
    qed
  qed
qed

theorem offset_points_on_circle_witness:
  "offset_edge (worked_env (2 / 7) 1) (worked_base (3 / 5)) (1 / 2) (0, 0) (3 / 7, 4 / 7) =
     Some (Inr \<lparr>op1 = (10 / 29, - (21 / 58)), op2 = (13621 / 16331, 9109 / 32662),
                seg1 = Line_segment (10 / 29, - (21 / 58)) (223 / 518, - (1017 / 3626)),
                dir_right1 = True,
                second = Some (Line_segment (223 / 518, - (1017 / 3626))
                                 (13621 / 16331, 9109 / 32662), True),
                n_segments = 2\<rparr>)
   \<and> squared_distance (10 / 29, - (21 / 58)) (0, 0) = square (1 / 2)
   \<and> squared_distance (13621 / 16331, 9109 / 32662) (3 / 7, 4 / 7) = square (1 / 2)"
proof -
  have h: "offset_edge (worked_env (2 / 7) 1) (worked_base (3 / 5)) (1 / 2) (0, 0) (3 / 7, 4 / 7) =
     Some (Inr \<lparr>op1 = (10 / 29, - (21 / 58)), op2 = (13621 / 16331, 9109 / 32662),
                seg1 = Line_segment (10 / 29, - (21 / 58)) (223 / 518, - (1017 / 3626)),
                dir_right1 = True,
                second = Some (Line_segment (223 / 518, - (1017 / 3626))
                                 (13621 / 16331, 9109 / 32662), True),
                n_segments = 2\<rparr>)"
    by (simp add: edge_eval newton_loop.simps)
  from offset_points_on_circle[OF h] h show ?thesis by simp
qed

text \<open>
  C10. When the two end points of an edge are distinct, \<open>delta_x\<close> and \<open>delta_y\<close>
  are not both zero, the assertion of the vertical branch does not fail, and the branch taken
  is the vertical one exactly when \<open>delta_x = 0\<close>, the horizontal one exactly when
  \<open>delta_y = 0\<close>, and the general one exactly when neither is zero: the three cases are
  exhaustive and mutually exclusive.
\<close>

theorem edge_cases_exhaustive:
  assumes "p1 \<noteq> p2" and "delta_x = fst p2 - fst p1" and "delta_y = snd p2 - snd p1"
  shows "\<not> (delta_x = 0 \<and> delta_y = 0)
    \<and> offset_edge env base r p1 p2 \<noteq> Some (Inl Assertion_sign_delta_y)
    \<and> (edge_case (sign delta_x) (sign delta_y) = Vertical) = (delta_x = 0)
    \<and> (edge_case (sign delta_x) (sign delta_y) = Horizontal) = (delta_y = 0)
    \<and> (edge_case (sign delta_x) (sign delta_y) = General) = (delta_x \<noteq> 0 \<and> delta_y \<noteq> 0)"
proof -
  from assms have nz: "\<not> (delta_x = 0 \<and> delta_y = 0)"
    by (cases p1, cases p2) auto
  have "offset_edge env base r p1 p2 \<noteq> Some (Inl Assertion_sign_delta_y)"
  proof (cases "delta_x = 0 \<or> delta_y = 0")
    case True
    with nz show ?thesis
      unfolding assms(2,3)
      by (auto simp: offset_edge_def edge_case_def Let_def sign_simps)
  next
    case False
    then show ?thesis
      unfolding assms(2,3) using offset_edge_general_error[of p2 p1 env base r] by fastforce
  qed
  with nz show ?thesis by (auto simp: edge_case_def sign_simps)
qed

theorem edge_cases_exhaustive_witness:
  "((0, 0) :: Point_2) \<noteq> (1, 0)
   \<and> offset_edge (worked_env 1 1) (worked_base 1) 1 (0, 0) (1, 0) \<noteq> Some (Inl Assertion_sign_delta_y)
   \<and> edge_case (sign 1) (sign 0) = Horizontal"
  using edge_cases_exhaustive[of "(0, 0)" "(1, 0)" 1 0 "worked_env 1 1" "worked_base 1" 1]
  by simp

text \<open>
  C6. For an edge with distinct end points: when \<open>delta_x = 0\<close> exactly one offset segment
  is produced, both end points shifted by \<open>(r, 0)\<close> if \<open>0 < delta_y\<close> and by
  \<open>(- r, 0)\<close> otherwise, with direction flag \<open>0 < delta_y\<close>; when \<open>delta_y = 0\<close>
  exactly one segment is produced, both end points shifted by \<open>(0, - r)\<close> if
  \<open>0 < delta_x\<close> and by \<open>(0, r)\<close> otherwise, with direction flag \<open>0 < delta_x\<close>. The
  shifts are exact.
\<close>

theorem axis_aligned_edges:
  assumes "p1 \<noteq> p2" and "delta_x = fst p2 - fst p1" and "delta_y = snd p2 - snd p1"
  shows "(delta_x = 0 \<longrightarrow>
            (let shift = (if 0 < delta_y then r else - r)
             in offset_edge env base r p1 p2 =
                Some (Inr \<lparr>op1 = (fst p1 + shift, snd p1), op2 = (fst p2 + shift, snd p2),
                           seg1 = Line_segment (fst p1 + shift, snd p1) (fst p2 + shift, snd p2),
                           dir_right1 = (0 < delta_y), second = None, n_segments = 1\<rparr>)))
       \<and> (delta_y = 0 \<longrightarrow>
            (let shift = (if 0 < delta_x then - r else r)
             in offset_edge env base r p1 p2 =
                Some (Inr \<lparr>op1 = (fst p1, snd p1 + shift), op2 = (fst p2, snd p2 + shift),
                           seg1 = Line_segment (fst p1, snd p1 + shift) (fst p2, snd p2 + shift),
                           dir_right1 = (0 < delta_x), second = None, n_segments = 1\<rparr>)))"
proof -
  from assms have nz: "\<not> (delta_x = 0 \<and> delta_y = 0)"
    by (cases p1, cases p2) auto
  then show ?thesis
    unfolding assms(2,3)
    by (auto simp: offset_edge_def edge_case_def Let_def sign_simps)
qed

theorem axis_aligned_edges_witness:
  "((1, 1) :: Point_2) \<noteq> (1, 0)
   \<and> offset_edge (worked_env 1 1) (worked_base 1) (1 / 2) (1, 1) (1, 0) =
       Some (Inr \<lparr>op1 = (1 / 2, 1), op2 = (1 / 2, 0),
                  seg1 = Line_segment (1 / 2, 1) (1 / 2, 0),
                  dir_right1 = False, second = None, n_segments = 1\<rparr>)
   \<and> ((0, 1) :: Point_2) \<noteq> (0, 0)"
  using axis_aligned_edges[of "(1, 1)" "(1, 0)" 0 "- 1" "1 / 2" "worked_env 1 1" "worked_base 1"]
  by simp

subsection \<open>The approximated length of a general edge\<close>

lemma accepted_positive:
  assumes "newton_loop sqr_d err_bound \<bar>delta_x\<bar> \<bar>delta_y\<bar> app_d0 = Some (Inr app_d)"
  shows "0 < app_d"
proof -
  from newton_loop_accepts[OF assms] have "\<bar>delta_x\<bar> < app_d" by simp
  then show ?thesis by linarith
qed

lemma exact_seed_accepted:
  assumes "sqr_d = square delta_x + square delta_y" "delta_x \<noteq> 0" "delta_y \<noteq> 0"
    and "0 < app_d0" "square app_d0 = sqr_d" "0 \<le> err_bound"
  shows "newton_loop sqr_d err_bound \<bar>delta_x\<bar> \<bar>delta_y\<bar> app_d0 = Some (Inr app_d0)"
proof -
  have "\<not> refine_more (square delta_x + square delta_y) err_bound \<bar>delta_x\<bar> \<bar>delta_y\<bar> app_d0"
    using assms by (intro accept_above_root) simp_all
  then show ?thesis
    unfolding assms(1) by (subst newton_loop.simps) simp
qed

text \<open>A refinement step never lands on the exact root, so an inexact start stays inexact.\<close>

lemma newton_step_inexact:
  assumes "a \<noteq> 0" and "square a \<noteq> s"
  shows "square ((a + s / a) / 2) \<noteq> s"
proof -
  from assms(2) have "square a - s \<noteq> 0" by simp
  then have "square (square a - s) \<noteq> 0" by (simp add: square_def)
  moreover from assms(1) have "4 * square a \<noteq> 0" by (simp add: square_def)
  ultimately have nz: "square (square a - s) / (4 * square a) \<noteq> 0" by simp
  show ?thesis
  proof
    assume "square ((a + s / a) / 2) = s"
    then have "square ((a + s / a) / 2) - s = 0" by simp
    then have "square (square a - s) / (4 * square a) = 0"
      by (simp only: newton_step_error[OF assms(1), of s])
    with nz show False by contradiction
  qed
qed

lemma newton_loop_inexact:
  assumes "newton_loop s e ax ay a0 = Some y"
  shows "square a0 \<noteq> s \<longrightarrow> (\<forall>a. y = Inr a \<longrightarrow> square a \<noteq> s)"
proof (rule newton_loop.raw_induct
    [where P = "\<lambda>s e ax ay a0 y. square a0 \<noteq> s \<longrightarrow> (\<forall>a. y = Inr a \<longrightarrow> square a \<noteq> s)",
     OF _ assms])
  fix f s e ax ay a0 y
  assume IH: "\<And>s e ax ay a0 y. f s e ax ay a0 = Some y \<Longrightarrow>
              square a0 \<noteq> s \<longrightarrow> (\<forall>a. y = Inr a \<longrightarrow> square a \<noteq> s)"
    and body: "(if refine_more s e ax ay a0
          then if a0 = 0 then Some (Inl Division_by_zero)
               else f s e ax ay ((a0 + s / a0) / 2)
          else Some (Inr a0)) = Some y"
  show "square a0 \<noteq> s \<longrightarrow> (\<forall>a. y = Inr a \<longrightarrow> square a \<noteq> s)"
  proof (cases "refine_more s e ax ay a0")
    case False
    with body show ?thesis by auto
  next
    case True
    show ?thesis
    proof (cases "a0 = 0")
      case True
      with \<open>refine_more s e ax ay a0\<close> body show ?thesis by auto
    next
      case False
      with \<open>refine_more s e ax ay a0\<close> body
      have "f s e ax ay ((a0 + s / a0) / 2) = Some y" by simp
      from IH[OF this] newton_step_inexact[OF False] show ?thesis by blast
    qed
  qed
qed

text \<open>
  C4, as the code has it. For a general edge whose refinement loop ends with zero
  approximation error (\<open>square app_d = sqr_d\<close>, so the length of the edge is the rational
  \<open>app_d\<close>), exactly one offset segment is produced: both end points are translated by
  \<open>(r * delta_y / app_d, r * (- delta_x) / app_d)\<close> and the direction flag is
  \<open>0 < delta_x\<close>. The loop ends so when the first approximation is the exact positive root
  and the error bound is not negative. When the first approximation is not an exact root,
  the edge never gets the single segment: whenever offset points are produced, there are two
  segments.
\<close>

theorem exact_root_one_segment:
  assumes "delta_x = fst p2 - fst p1" and "delta_y = snd p2 - snd p1"
    and "sqr_d = square delta_x + square delta_y"
    and "delta_x \<noteq> 0" and "delta_y \<noteq> 0"
    and "fp_seed env base sqr_d delta_x delta_y = (err_bound, app_d0)"
  shows "(newton_loop sqr_d err_bound \<bar>delta_x\<bar> \<bar>delta_y\<bar> app_d0 = Some (Inr app_d)
          \<and> square app_d = sqr_d \<longrightarrow>
            (let trans_x = r * delta_y / app_d; trans_y = r * (- delta_x) / app_d
             in offset_edge env base r p1 p2 =
                Some (Inr \<lparr>op1 = (fst p1 + trans_x, snd p1 + trans_y),
                           op2 = (fst p2 + trans_x, snd p2 + trans_y),
                           seg1 = Line_segment (fst p1 + trans_x, snd p1 + trans_y)
                                               (fst p2 + trans_x, snd p2 + trans_y),
                           dir_right1 = (0 < delta_x), second = None, n_segments = 1\<rparr>)))
       \<and> (0 < app_d0 \<and> square app_d0 = sqr_d \<and> 0 \<le> err_bound \<longrightarrow>
            newton_loop sqr_d err_bound \<bar>delta_x\<bar> \<bar>delta_y\<bar> app_d0 = Some (Inr app_d0))
       \<and> (square app_d0 \<noteq> sqr_d \<and> offset_edge env base r p1 p2 = Some (Inr e) \<longrightarrow>
            n_segments e = 2 \<and> second e \<noteq> None)"
proof (intro conjI impI)
  assume a: "newton_loop sqr_d err_bound \<bar>delta_x\<bar> \<bar>delta_y\<bar> app_d0 = Some (Inr app_d)
          \<and> square app_d = sqr_d"
  then have loop: "newton_loop sqr_d err_bound \<bar>delta_x\<bar> \<bar>delta_y\<bar> app_d0 = Some (Inr app_d)"
    and exact: "square app_d = sqr_d" by simp_all
  from accepted_positive[OF loop] have nz: "app_d \<noteq> 0" by simp
  from offset_edge_general[OF assms loop, of r] exact
  have "offset_edge env base r p1 p2 = Some (rational_case r p1 p2 app_d)"
    by (simp add: sign_simps)
  with nz show "let trans_x = r * delta_y / app_d; trans_y = r * (- delta_x) / app_d
             in offset_edge env base r p1 p2 =
                Some (Inr \<lparr>op1 = (fst p1 + trans_x, snd p1 + trans_y),
                           op2 = (fst p2 + trans_x, snd p2 + trans_y),
                           seg1 = Line_segment (fst p1 + trans_x, snd p1 + trans_y)
                                               (fst p2 + trans_x, snd p2 + trans_y),
                           dir_right1 = (0 < delta_x), second = None, n_segments = 1\<rparr>)"
    by (simp add: rational_case_def Let_def sign_simps assms(1,2) field_simps)
next
  assume "0 < app_d0 \<and> square app_d0 = sqr_d \<and> 0 \<le> err_bound"
  with assms(3,4,5)
  show "newton_loop sqr_d err_bound \<bar>delta_x\<bar> \<bar>delta_y\<bar> app_d0 = Some (Inr app_d0)"
    by (intro exact_seed_accepted) simp_all
next
  assume b: "square app_d0 \<noteq> sqr_d \<and> offset_edge env base r p1 p2 = Some (Inr e)"
  have "n_segments e = 2 \<and> second e \<noteq> None"
  proof (cases "newton_loop sqr_d err_bound \<bar>delta_x\<bar> \<bar>delta_y\<bar> app_d0")
    case None
    from offset_edge_general_diverges[OF assms None, of r] b show ?thesis by simp
  next
    case (Some res)
    note eq = offset_edge_general[OF assms Some, of r]
    show ?thesis
    proof (cases res)
      case (Inl err)
      with eq b show ?thesis by simp
    next
      case (Inr a)
      with newton_loop_inexact[OF Some] b have "square a \<noteq> sqr_d" by blast
      then have "sign (sqr_d - square a) \<noteq> ZERO" by (simp add: sign_simps)
      with eq Inr b obtain a' where "two_segments r p1 p2 a' = Inr e"
        by (auto split: sum.splits)
      then show ?thesis using two_segments_shape by blast
    qed
  qed
  then show "n_segments e = 2" and "second e \<noteq> None" by simp_all
qed

theorem exact_root_one_segment_witness:
  "newton_loop 25 (1 / 5) \<bar>- 4\<bar> \<bar>- 3\<bar> 5 = Some (Inr 5)
   \<and> offset_edge (worked_env (1 / 5) 5) (worked_base (1 / 100)) (1 / 2) (4, 3) (0, 0) =
       Some (Inr \<lparr>op1 = (37 / 10, 17 / 5), op2 = (- (3 / 10), 2 / 5),
                  seg1 = Line_segment (37 / 10, 17 / 5) (- (3 / 10), 2 / 5),
                  dir_right1 = False, second = None, n_segments = 1\<rparr>)
   \<and> square 1 \<noteq> square (3 / 7) + square (4 / 7)
   \<and> (\<exists>e. offset_edge (worked_env (2 / 7) 1) (worked_base (3 / 5)) (1 / 2) (0, 0) (3 / 7, 4 / 7)
             = Some (Inr e) \<and> n_segments e = 2 \<and> second e \<noteq> None)"
proof -
  have one: "newton_loop 25 (1 / 5) \<bar>- 4\<bar> \<bar>- 3\<bar> 5 = Some (Inr 5)
   \<and> offset_edge (worked_env (1 / 5) 5) (worked_base (1 / 100)) (1 / 2) (4, 3) (0, 0) =
       Some (Inr \<lparr>op1 = (37 / 10, 17 / 5), op2 = (- (3 / 10), 2 / 5),
                  seg1 = Line_segment (37 / 10, 17 / 5) (- (3 / 10), 2 / 5),
                  dir_right1 = False, second = None, n_segments = 1\<rparr>)"
    using exact_root_one_segment[of "- 4" "(0, 0)" "(4, 3)" "- 3" 25 "worked_env (1 / 5) 5"
      "worked_base (1 / 100)" "1 / 5" 5 5 "1 / 2"]
    by (simp add: worked_env_def square_def Let_def)
  have "\<exists>e. offset_edge (worked_env (2 / 7) 1) (worked_base (3 / 5)) (1 / 2) (0, 0) (3 / 7, 4 / 7)
             = Some (Inr e)"
    by (simp add: edge_eval newton_loop.simps)
  then obtain e where
    h: "offset_edge (worked_env (2 / 7) 1) (worked_base (3 / 5)) (1 / 2) (0, 0) (3 / 7, 4 / 7)
          = Some (Inr e)"
    by blast
  have two: "n_segments e = 2 \<and> second e \<noteq> None"
    using exact_root_one_segment[of "3 / 7" "(3 / 7, 4 / 7)" "(0, 0)" "4 / 7" "25 / 49"
      "worked_env (2 / 7) 1" "worked_base (3 / 5)" "2 / 7" 1 1 "1 / 2" e] h
    by (simp add: worked_env_def square_def)
  have "square 1 \<noteq> square (3 / 7) + square (4 / 7)" by (simp add: square_def)
  with one two h show ?thesis by blast
qed

text \<open>
  The edge from \<open>(0, 0)\<close> to \<open>(3 / 7, 4 / 7)\<close> has the rational length \<open>5 / 7\<close>. With
  \<open>eps = 0.6\<close> the first approximation is \<open>1\<close> and the error bound is about \<open>2 / 7\<close>;
  one refinement step gives \<open>37 / 49\<close>, which is accepted with a nonzero error, and two
  segments are produced.
\<close>

theorem rational_length_two_segments:
  "square (5 / 7) = square (3 / 7 - 0) + square (4 / 7 - 0)
   \<and> newton_loop (square (3 / 7) + square (4 / 7)) (2 / 7) \<bar>3 / 7\<bar> \<bar>4 / 7\<bar> 1 = Some (Inr (37 / 49))
   \<and> map_option (map_sum id n_segments)
        (offset_edge (worked_env (2 / 7) 1) (worked_base (3 / 5)) (1 / 2) (0, 0) (3 / 7, 4 / 7))
      = Some (Inr 2)"
  by (simp add: edge_eval newton_loop.simps)

lemma quotient_below:
  assumes "0 < a" "0 < s" "s < square a"
  shows "0 < s / a" and "square (s / a) \<le> s" and "s - square (s / a) \<le> square a - s"
proof -
  have apos: "0 < square a" using assms(1) by (simp add: square_def)
  have sq: "square (s / a) = s * (s / square a)" by (simp add: square_def)
  from assms(3) apos have le1: "s / square a \<le> 1" by simp
  with assms(2) have "s * (s / square a) \<le> s * 1" by (intro mult_left_mono) simp_all
  then show "square (s / a) \<le> s" by (simp add: sq)
  show "0 < s / a" using assms(1,2) by simp
  have "s - square (s / a) = (s / square a) * (square a - s)"
    using apos by (simp add: sq field_simps)
  also have "\<dots> \<le> 1 * (square a - s)"
    using le1 assms(3) by (intro mult_right_mono) simp_all
  finally show "s - square (s / a) \<le> square a - s" by simp
qed

lemma quotient_above:
  assumes "0 < a" "0 < s" "square a < s"
  shows "0 < s / a" and "s \<le> square (s / a)" and "a < s / a"
proof -
  have apos: "0 < square a" using assms(1) by (simp add: square_def)
  have sq: "square (s / a) = s * (s / square a)" by (simp add: square_def)
  from assms(3) apos have "1 \<le> s / square a" by simp
  with assms(2) have "s * 1 \<le> s * (s / square a)" by (intro mult_left_mono) simp_all
  then show "s \<le> square (s / a)" by (simp add: sq)
  show "0 < s / a" using assms(1,2) by simp
  from assms(3) have "a * a < s" by (simp add: square_def)
  then show "a < s / a" using assms(1) by (simp add: pos_less_divide_eq)
qed

lemma bias_correction_value:
  assumes "0 < app_d" and "delta_x \<noteq> 0"
  shows "bias_correction (sign delta_x) (sign (sqr_d - square app_d)) sqr_d app_d =
           Inr (if (delta_x < 0 \<and> sqr_d < square app_d) \<or> (0 < delta_x \<and> square app_d < sqr_d)
                then sqr_d / app_d else app_d)"
  using assms by (auto simp: bias_correction_def sign_simps)

text \<open>
  C5. On the two-segment path (the loop has returned \<open>app_d\<close> with a nonzero error), the
  bias correction replaces \<open>app_d\<close> by \<open>sqr_d / app_d\<close> exactly when \<open>delta_x < 0\<close> and
  \<open>app_d\<close> is above the root, or \<open>0 < delta_x\<close> and \<open>app_d\<close> is below it. The result is
  positive; its square is at most \<open>sqr_d\<close> when \<open>delta_x < 0\<close> and at least \<open>sqr_d\<close>
  when \<open>0 < delta_x\<close>.
\<close>

theorem bias_correction_bounds:
  assumes "sqr_d = square delta_x + square delta_y"
    and "delta_x \<noteq> 0" and "delta_y \<noteq> 0"
    and "newton_loop sqr_d err_bound \<bar>delta_x\<bar> \<bar>delta_y\<bar> app_d0 = Some (Inr app_d)"
    and "sqr_d - square app_d \<noteq> 0"
  shows "\<exists>app_d'.
           bias_correction (sign delta_x) (sign (sqr_d - square app_d)) sqr_d app_d = Inr app_d'
         \<and> app_d' = (if (delta_x < 0 \<and> sqr_d < square app_d) \<or> (0 < delta_x \<and> square app_d < sqr_d)
                      then sqr_d / app_d else app_d)
         \<and> 0 < app_d'
         \<and> (delta_x < 0 \<longrightarrow> square app_d' \<le> sqr_d)
         \<and> (0 < delta_x \<longrightarrow> sqr_d \<le> square app_d')"
proof -
  have pos: "0 < app_d" using assms(4) by (rule accepted_positive)
  have spos: "0 < sqr_d" unfolding assms(1) using assms(2) by (rule sqr_d_positive)
  note v = bias_correction_value[OF pos assms(2), of sqr_d]
  from assms(5) consider "sqr_d < square app_d" | "square app_d < sqr_d" by linarith
  then show ?thesis
  proof cases
    case 1
    with pos v quotient_below[OF pos spos 1] show ?thesis by auto
  next
    case 2
    with pos v quotient_above[OF pos spos 2] show ?thesis by auto
  qed
qed

theorem bias_correction_bounds_witness:
  "newton_loop 18 (21 / 10) \<bar>3\<bar> \<bar>3\<bar> 4 = Some (Inr 4)
   \<and> (\<exists>app_d'. bias_correction (sign 3) (sign (18 - square 4)) 18 4 = Inr app_d'
         \<and> app_d' = 18 / 4 \<and> 18 \<le> square app_d')"
proof -
  have h: "newton_loop 18 (21 / 10) \<bar>3\<bar> \<bar>3\<bar> 4 = Some (Inr 4)"
    by (simp add: newton_loop.simps refine_more_iff square_def)
  from bias_correction_bounds[of 18 3 3 "21 / 10" 4 4] h show ?thesis
    by (auto simp: square_def)
qed


text \<open>
  C1, as the code has it. On the two-segment path of a general edge, the value \<open>app_d\<close>
  accepted by the refinement loop satisfies the acceptance predicate: the error is within
  \<open>err_bound\<close> and \<open>app_d\<close> exceeds \<open>\<bar>delta_x\<bar>\<close> and \<open>\<bar>delta_y\<bar>\<close>. The
  value the offset points are built from is \<open>app_d\<close> or, after the bias correction,
  \<open>sqr_d / app_d\<close>; it keeps the error within the bound when \<open>delta_x < 0\<close>, and it
  keeps exceeding \<open>\<bar>delta_x\<bar>\<close> and \<open>\<bar>delta_y\<bar>\<close> when \<open>0 < delta_x\<close>.
\<close>

theorem accepted_approximation_sound:
  assumes "delta_x = fst p2 - fst p1" and "delta_y = snd p2 - snd p1"
    and "sqr_d = square delta_x + square delta_y"
    and "delta_x \<noteq> 0" and "delta_y \<noteq> 0"
    and "fp_seed env base sqr_d delta_x delta_y = (err_bound, app_d0)"
    and "newton_loop sqr_d err_bound \<bar>delta_x\<bar> \<bar>delta_y\<bar> app_d0 = Some (Inr app_d)"
    and "sqr_d - square app_d \<noteq> 0"
  shows "\<bar>sqr_d - square app_d\<bar> \<le> err_bound \<and> \<bar>delta_x\<bar> < app_d \<and> \<bar>delta_y\<bar> < app_d
    \<and> (\<exists>app_d'.
           bias_correction (sign delta_x) (sign (sqr_d - square app_d)) sqr_d app_d = Inr app_d'
         \<and> offset_edge env base r p1 p2 = Some (two_segments r p1 p2 app_d')
         \<and> (app_d' = app_d \<or> app_d' = sqr_d / app_d)
         \<and> (delta_x < 0 \<longrightarrow> \<bar>sqr_d - square app_d'\<bar> \<le> err_bound)
         \<and> (0 < delta_x \<longrightarrow> \<bar>delta_x\<bar> < app_d' \<and> \<bar>delta_y\<bar> < app_d'))"
proof -
  note acc = newton_loop_accepts[OF assms(7)]
  have pos: "0 < app_d" using assms(7) by (rule accepted_positive)
  have spos: "0 < sqr_d" unfolding assms(3) using assms(4) by (rule sqr_d_positive)
  define app_d' where "app_d' =
    (if (delta_x < 0 \<and> sqr_d < square app_d) \<or> (0 < delta_x \<and> square app_d < sqr_d)
     then sqr_d / app_d else app_d)"
  have v: "bias_correction (sign delta_x) (sign (sqr_d - square app_d)) sqr_d app_d = Inr app_d'"
    unfolding app_d'_def using pos assms(4) by (rule bias_correction_value)
  from offset_edge_general[OF assms(1-7), of r] assms(8) v
  have edge: "offset_edge env base r p1 p2 = Some (two_segments r p1 p2 app_d')"
    by (simp add: sign_simps)
  have either: "app_d' = app_d \<or> app_d' = sqr_d / app_d"
    by (simp add: app_d'_def)
  have neg: "\<bar>sqr_d - square app_d'\<bar> \<le> err_bound" if "delta_x < 0"
  proof (cases "sqr_d < square app_d")
    case True
    from quotient_below[OF pos spos True] acc that True show ?thesis
      by (simp add: app_d'_def)
  next
    case False
    with that acc show ?thesis by (simp add: app_d'_def)
  qed
  have posx: "\<bar>delta_x\<bar> < app_d' \<and> \<bar>delta_y\<bar> < app_d'" if "0 < delta_x"
  proof (cases "square app_d < sqr_d")
    case True
    from quotient_above[OF pos spos True] acc that True show ?thesis
      by (simp add: app_d'_def)
  next
    case False
    with that acc show ?thesis by (simp add: app_d'_def)
  qed
  from acc v edge either neg posx show ?thesis by blast
qed

theorem accepted_approximation_sound_witness:
  "newton_loop 18 (2108831 / 1000000) \<bar>3\<bar> \<bar>3\<bar> 4 = Some (Inr 4)
   \<and> \<bar>18 - square 4\<bar> \<le> 2108831 / 1000000 \<and> \<bar>3\<bar> < (4 :: rat)
   \<and> (\<exists>app_d'. bias_correction (sign 3) (sign (18 - square 4)) 18 4 = Inr app_d'
         \<and> offset_edge (worked_env (2108831 / 1000000) 4) (worked_base (3 / 5)) (1 / 2) (0, 0) (3, 3)
             = Some (two_segments (1 / 2) (0, 0) (3, 3) app_d')
         \<and> \<bar>3\<bar> < app_d')"
proof -
  have h: "newton_loop 18 (2108831 / 1000000) \<bar>3\<bar> \<bar>3\<bar> 4 = Some (Inr 4)"
    by (simp add: newton_loop.simps refine_more_iff square_def)
  from accepted_approximation_sound[of 3 "(3, 3)" "(0, 0)" 3 18
      "worked_env (2108831 / 1000000) 4" "worked_base (3 / 5)" "2108831 / 1000000" 4 4 "1 / 2"] h
  show ?thesis by (auto simp: square_def worked_env_def)
qed

text \<open>
  The edge from \<open>(0, 0)\<close> to \<open>(3, 3)\<close> with \<open>eps = 0.6\<close>: \<open>sqr_d = 18\<close>, the
  first approximation is \<open>4\<close> and the error bound is \<open>2.108831\<close> to six places (every
  bound from \<open>2\<close> up to \<open>9 / 4\<close> gives the same run). The loop accepts \<open>4\<close> at once,
  with error \<open>2\<close>; as \<open>0 < delta_x\<close> and \<open>4\<close> is below the root, the bias correction
  replaces it by \<open>9 / 2\<close>, whose error \<open>9 / 4\<close> exceeds the bound. Two segments are built
  from \<open>9 / 2\<close>.
\<close>

theorem bias_correction_breaks_acceptance:
  "newton_loop (square (3 - 0) + square (3 - 0)) (2108831 / 1000000) \<bar>3 - 0\<bar> \<bar>3 - 0\<bar> 4
     = Some (Inr 4)
   \<and> bias_correction (sign (3 - 0)) (sign (18 - square 4)) 18 4 = Inr (9 / 2)
   \<and> offset_edge (worked_env (2108831 / 1000000) 4) (worked_base (3 / 5)) (1 / 2) (0, 0) (3, 3)
       = Some (two_segments (1 / 2) (0, 0) (3, 3) (9 / 2))
   \<and> map_sum id n_segments (two_segments (1 / 2) (0, 0) (3, 3) (9 / 2)) = Inr 2
   \<and> \<not> \<bar>18 - square (9 / 2)\<bar> \<le> 2108831 / 1000000"
  by (simp add: edge_eval newton_loop.simps)

subsection \<open>The labels of a cycle\<close>

lemma indices_append [simp]: "indices (ws @ vs) = indices ws @ indices vs"
  by (simp add: indices_def)

lemma last_flags_append [simp]: "last_flags (ws @ vs) = last_flags ws @ last_flags vs"
  by (simp add: last_flags_def)

lemma length_indices [simp]: "length (indices ws) = length ws"
  by (simp add: indices_def)


lemma stamped_Nil [simp]: "stamped ci []"
  by (simp add: stamped_def indices_def last_flags_def)










lemmas poly_eval = offset_polygon_def traverse.simps loop_body_def advance_def emit_segments_def
  X_curve_label3_def X_curve_label4_def oi_assign_def oi_incr_def fresh_oi_def
  x_monotone_pieces_def strictly_inside_def cross_def indices_def last_flags_def






text \<open>
  The triangle \<open>(0, 0), (4, 0), (4, 3)\<close> with \<open>r = 1 / 2\<close> and \<open>eps = 0.01\<close>: the edge
  from \<open>(4, 3)\<close> to \<open>(0, 0)\<close> has length 5, its error bound is \<open>0.2\<close> and its first
  approximation is \<open>5\<close>. Seven curves are written: three segments, two connecting arcs
  and the closing arc in two pieces.
\<close>

lemma triangle_cycle:
  "map_option (map_sum id (\<lambda>out. (map fst (writes out), pos out, indices (writes out),
                                   last_flags (writes out))))
     (offset_polygon (worked_env (1 / 5) 5) (worked_base (1 / 100))
        [(0, 0), (4, 0), (4, 3)] (1 / 2) 7 fresh_oi)
   = Some (Inr ([0, 1, 2, 3, 4, 5, 5], 5, [0, 1, 2, 3, 4, 5, 6],
                [False, False, False, False, False, False, True]))"
  by (simp add: edge_eval poly_eval newton_loop.simps)



subsection \<open>The closing arc and the output iterator\<close>

text \<open>
  C2, at the triangle \<open>(0, 0), (4, 0), (4, 3)\<close> with \<open>r = 1 / 2\<close>. The closing arc is
  centered at the first vertex \<open>(0, 0)\<close>, counterclockwise, from the last offset point
  \<open>(- 3 / 10, 2 / 5)\<close> to the first one \<open>(0, - 1 / 2)\<close>; its two sub-arcs carry the
  indices 5 and 6 and only the second is marked as last. Both are written at position 5, the
  second over the first, and the iterator returned still stands at position 5: the loop of
  lines 433 to 447 has no \<open>++oi\<close>, unlike the loop of lines 379 to 390.
\<close>

theorem closing_arcs_share_position:
  "map_option (map_sum id (\<lambda>out. (drop 5 (writes out), pos out)))
     (offset_polygon (worked_env (1 / 5) 5) (worked_base (1 / 100))
        [(0, 0), (4, 0), (4, 3)] (1 / 2) 7 fresh_oi)
   = Some (Inr ([(5, \<lparr>curve = Circular_arc
                               \<lparr>center = (0, 0), radius = 1 / 2, orient = COUNTERCLOCKWISE,
                                source = (- (3 / 10), 2 / 5), target = (- (1 / 2), 0)\<rparr> False,
                          label = \<lparr>right = False, component = 7, index = 5,
                                   is_last = False\<rparr>\<rparr>),
                 (5, \<lparr>curve = Circular_arc
                               \<lparr>center = (0, 0), radius = 1 / 2, orient = COUNTERCLOCKWISE,
                                source = (- (1 / 2), 0), target = (0, - (1 / 2))\<rparr> True,
                          label = \<lparr>right = True, component = 7, index = 6,
                                   is_last = True\<rparr>\<rparr>)],
                5))"
  by (simp add: edge_eval poly_eval newton_loop.simps)

subsection \<open>Preconditions\<close>

lemma offset_edge_error:
  assumes "offset_edge env base r p1 p2 = Some (Inl err)"
  shows "err = Assertion_sign_delta_y \<or> err = Division_by_zero \<or> err = Assertion_assign_mid_p"
proof (cases "fst p2 - fst p1 = 0 \<or> snd p2 - snd p1 = 0")
  case True
  with assms show ?thesis
    by (auto simp: offset_edge_def edge_case_def Let_def sign_simps split: if_splits)
next
  case False
  with assms offset_edge_general_error[of p2 p1 env base r err] show ?thesis by simp
qed

lemma emit_xarcs_error:
  "emit_xarcs cycle_id xobjs ci out = Inl err \<Longrightarrow> err = Assertion_assign_xarc"
  by (induction xobjs arbitrary: ci out) (auto split: option.splits)

lemma close_xarcs_error:
  "close_xarcs cycle_id xobjs ci out = Inl err \<Longrightarrow> err = Assertion_assign_xarc"
  by (induction xobjs arbitrary: ci out) (auto split: option.splits)

lemma emit_segments_error:
  "emit_segments cycle_id e ci out = Inl err \<Longrightarrow> err = Assertion_n_segments"
  by (auto simp: emit_segments_def Let_def split: if_splits option.splits)

lemma loop_body_error:
  assumes "loop_body env base pgn forward r cycle_id st = Some (Inl err)"
  shows "err \<noteq> Precondition_eps_positive"
proof (cases "length pgn \<le> curr st")
  case True
  with assms show ?thesis by (simp add: loop_body_def)
next
  case inside: False
  define nxt where "nxt = advance forward (length pgn) (curr st)"
  show ?thesis
  proof (cases "offset_edge env base r (pgn ! curr st) (pgn ! nxt)")
    case None
    with assms inside show ?thesis by (simp add: loop_body_def nxt_def)
  next
    case (Some y)
    show ?thesis
    proof (cases y)
      case (Inl e1)
      with Some offset_edge_error[of env base r "pgn ! curr st" "pgn ! nxt" e1]
      have "e1 \<noteq> Precondition_eps_positive" by auto
      with assms inside Some Inl show ?thesis by (simp add: loop_body_def nxt_def)
    next
      case (Inr e)
      define arcs where "arcs = emit_xarcs cycle_id
         (make_x_monotone env \<lparr>center = pgn ! curr st, radius = r, orient = COUNTERCLOCKWISE,
                                source = prev_op st, target = op1 e\<rparr>)
         (curve_index st) (oi st)"
      define st1 where "st1 = (if curr st = 0 then Inr (st\<lparr>first_op := op1 e\<rparr>)
         else case arcs of Inl err \<Rightarrow> Inl err
              | Inr (ci, o') \<Rightarrow> Inr (st\<lparr>curve_index := ci, oi := o'\<rparr>))"
      from assms inside Some Inr have b: "(case st1 of
            Inl err \<Rightarrow> Some (Inl err)
          | Inr st1 \<Rightarrow>
              (case emit_segments cycle_id e (curve_index st1) (oi st1) of
                 Inl err \<Rightarrow> Some (Inl err)
               | Inr (ci, o') \<Rightarrow>
                   Some (Inr (st1\<lparr>curve_index := ci, oi := o', prev_op := op2 e,
                                  op2_var := op2 e, curr := nxt\<rparr>)))) = Some (Inl err)"
        unfolding loop_body_def Let_def nxt_def st1_def arcs_def
        by (simp only: if_not_P if_False option.case sum.case)
      show ?thesis
      proof (cases st1)
        case (Inl e2)
        then have "arcs = Inl e2"
          by (auto simp: st1_def split: if_splits sum.splits prod.splits)
        then have "e2 = Assertion_assign_xarc" unfolding arcs_def by (rule emit_xarcs_error)
        with b Inl show ?thesis by simp
      next
        case (Inr s1)
        with b have "emit_segments cycle_id e (curve_index s1) (oi s1) = Inl err"
          by (auto split: sum.splits prod.splits)
        then have "err = Assertion_n_segments" by (rule emit_segments_error)
        then show ?thesis by simp
      qed
    qed
  qed
qed

lemma traverse_error:
  "traverse env base pgn forward r cycle_id st = Some (Inl err) \<Longrightarrow>
   err \<noteq> Precondition_eps_positive"
proof (induction env base pgn forward r cycle_id st rule: traverse.induct)
  case (1 env base pgn forward r cycle_id st)
  show ?case
  proof (cases "loop_body env base pgn forward r cycle_id st")
    case None
    with "1.prems" show ?thesis by (subst (asm) traverse.simps) simp
  next
    case (Some y)
    show ?thesis
    proof (cases y)
      case (Inl e1)
      with Some "1.prems" have "err = e1" by (subst (asm) traverse.simps) simp
      with Some Inl show ?thesis by (auto dest: loop_body_error)
    next
      case (Inr st1)
      show ?thesis
      proof (cases "curr st1 = 0")
        case True
        with Some Inr "1.prems" show ?thesis by (subst (asm) traverse.simps) simp
      next
        case False
        with Some Inr "1.prems"
        have "traverse env base pgn forward r cycle_id st1 = Some (Inl err)"
          by (subst (asm) traverse.simps) simp
        with Some Inr False show ?thesis by (intro "1.IH"[of y st1]) simp_all
      qed
    qed
  qed
qed

lemma offset_polygon_error:
  assumes "offset_polygon env base pgn r cycle_id oi0 = Some (Inl err)"
  shows "err \<noteq> Precondition_eps_positive"
proof -
  define res where "res = traverse env base pgn (orientation env pgn = COUNTERCLOCKWISE) r cycle_id
       \<lparr>curr = 0, first_op = (0, 0), prev_op = (0, 0), op2_var = (0, 0),
        curve_index = 0, oi = oi0\<rparr>"
  from assms have a: "(case res of
           None \<Rightarrow> None
         | Some (Inl err) \<Rightarrow> Some (Inl err)
         | Some (Inr st) \<Rightarrow>
             (case close_xarcs cycle_id
                     (make_x_monotone env \<lparr>center = pgn ! 0, radius = r,
                        orient = COUNTERCLOCKWISE, source = op2_var st, target = first_op st\<rparr>)
                     (curve_index st) (oi st) of
                   Inl err \<Rightarrow> Some (Inl err)
                 | Inr (ci, o') \<Rightarrow> Some (Inr o'))) = Some (Inl err)"
    unfolding offset_polygon_def Let_def res_def .
  show ?thesis
  proof (cases res)
    case None
    with a show ?thesis by simp
  next
    case (Some y)
    show ?thesis
    proof (cases y)
      case (Inl e1)
      with a Some have "res = Some (Inl err)" by simp
      then show ?thesis unfolding res_def by (rule traverse_error)
    next
      case (Inr st)
      with a Some have "close_xarcs cycle_id
                     (make_x_monotone env \<lparr>center = pgn ! 0, radius = r,
                        orient = COUNTERCLOCKWISE, source = op2_var st, target = first_op st\<rparr>)
                     (curve_index st) (oi st) = Inl err"
        by (auto split: sum.splits prod.splits)
      then have "err = Assertion_assign_xarc" by (rule close_xarcs_error)
      then show ?thesis by simp
    qed
  qed
qed

text \<open>
  C8, as the code has it. A value of \<open>eps\<close> that is not positive is rejected by the
  constructor, and only there: the constructor fails exactly when \<open>eps \<le> 0\<close>, it builds
  the object for that \<open>eps\<close> exactly when \<open>0 < eps\<close>, and \<open>_offset_polygon\<close> never
  reports a violated precondition, whatever the object, the polygon and the radius.
\<close>

theorem eps_checked_at_construction:
  "(construct env e = Inl Precondition_eps_positive) = (e \<le> 0)
   \<and> (\<exists>b. construct env e = Inr b \<and> eps b = e) = (0 < e)
   \<and> offset_polygon env base pgn r cycle_id oi0 \<noteq> Some (Inl Precondition_eps_positive)"
proof -
  have "(construct env e = Inl Precondition_eps_positive) = (e \<le> 0)"
    by (auto simp: construct_def sign_simps Let_def)
  moreover have "(\<exists>b. construct env e = Inr b \<and> eps b = e) = (0 < e)"
    by (auto simp: construct_def sign_simps Let_def)
  moreover have "offset_polygon env base pgn r cycle_id oi0 \<noteq> Some (Inl Precondition_eps_positive)"
    using offset_polygon_error[of env base pgn r cycle_id oi0 Precondition_eps_positive] by blast
  ultimately show ?thesis by simp
qed

theorem eps_checked_at_construction_witness:
  "construct (worked_env (1 / 5) 5) 0 = Inl Precondition_eps_positive
   \<and> (\<exists>b. construct (worked_env (1 / 5) 5) (1 / 100) = Inr b \<and> eps b = 1 / 100)
   \<and> offset_polygon (worked_env (1 / 5) 5) (worked_base 0) [(0, 0), (4, 0), (4, 3)] (1 / 2) 7
        fresh_oi \<noteq> Some (Inl Precondition_eps_positive)"
  using eps_checked_at_construction[of "worked_env (1 / 5) 5" 0 "worked_base 0"
      "[(0, 0), (4, 0), (4, 3)]" "1 / 2" 7 fresh_oi]
    eps_checked_at_construction[of "worked_env (1 / 5) 5" "1 / 100" "worked_base 0"
      "[(0, 0), (4, 0), (4, 3)]" "1 / 2" 7 fresh_oi]
  by simp

text \<open>
  A polygon with two vertices and a negative radius are not rejected: the traversal runs and
  writes six curves for the polygon \<open>(0, 0), (1, 0)\<close> and eight for the unit square with
  \<open>r = - 1 / 2\<close>.
\<close>

theorem short_polygon_and_negative_radius_traversed:
  "map_option (map_sum id (\<lambda>out. length (writes out)))
     (offset_polygon (worked_env (1 / 5) 5) (worked_base (1 / 100))
        [(0, 0), (1, 0)] (1 / 2) 7 fresh_oi) = Some (Inr 6)
   \<and> map_option (map_sum id (\<lambda>out. length (writes out)))
     (offset_polygon (worked_env (1 / 5) 5) (worked_base (1 / 100))
        [(0, 0), (1, 0), (1, 1), (0, 1)] (- 1 / 2) 7 fresh_oi) = Some (Inr 8)"
  by (simp add: edge_eval poly_eval newton_loop.simps)

end
